theory Spec2Isabelle
  imports Main "HOL-Library.Word"
begin

section \<open>File decorators of pdlfs-common (include/pdlfs-common/env_files.h)\<close>

subsection \<open>Types declared outside env_files.h\<close>

text \<open>
  Modelled from the spec: the \<^verbatim>\<open>Status\<close> class (pdlfs-common/status.h). The decorators
  use only \<^verbatim>\<open>Status::OK()\<close>, the default constructor (which builds the success value),
  \<^verbatim>\<open>Status::Disconnected(msg)\<close> and \<^verbatim>\<open>ok()\<close>; every other failure comes from the
  wrapped file and is passed through untouched.
\<close>

datatype Status = OK | Disconnected string | IOError string | Failure nat string

fun ok :: "Status \<Rightarrow> bool" where
  "ok OK = True"
| "ok _ = False"

text \<open>
  Modelled from the spec: the abstract classes \<^verbatim>\<open>WritableFile\<close> and
  \<^verbatim>\<open>SequentialFile\<close> (pdlfs-common/env.h). A wrapped file is an object with a private
  state of type \<open>'b\<close> and a table of virtual methods; each method returns its
  \<^verbatim>\<open>Status\<close> together with the new state of the object. Nothing is assumed about what
  the methods do.
\<close>

record 'b WritableFile =
  wAppend :: "string \<Rightarrow> 'b \<Rightarrow> Status \<times> 'b"
  wFlush :: "'b \<Rightarrow> Status \<times> 'b"
  wSync :: "'b \<Rightarrow> Status \<times> 'b"
  wClose :: "'b \<Rightarrow> Status \<times> 'b"

record 'r SequentialFile =
  sRead :: "64 word \<Rightarrow> string \<Rightarrow> 'r \<Rightarrow> (Status \<times> string) \<times> 'r"
  sSkip :: "64 word \<Rightarrow> 'r \<Rightarrow> Status \<times> 'r"

text \<open>
  What C++ leaves undefined or aborts on: a call through a NULL \<^verbatim>\<open>base_\<close>, a failed
  \<^verbatim>\<open>assert\<close>, and \<^verbatim>\<open>std::string::append\<close> with a length that wrapped around.
\<close>

datatype fault = NullPointer | AssertionFailed | LengthError

text \<open>The calls a decorator makes on its wrapped writer, with the status each returned.\<close>

datatype call =
  CallAppend string Status
| CallFlush Status
| CallSync Status
| CallClose Status

subsection \<open>UnsafeBufferedWritableFile\<close>

text \<open>
  The fields of the class, named as in the source without the trailing underscore.
  \<open>base\<close> is \<open>None\<close> for the NULL pointer, \<open>offset\<close> is the \<^verbatim>\<open>uint64_t\<close>
  counter. Sizes of strings in memory are natural numbers: the sum
  \<^verbatim>\<open>buf_.size() + chunk.size()\<close> of two live strings cannot reach \<open>2 ^ 64\<close>. The last
  field is not in the class: it records, in order, the calls made on \<^verbatim>\<open>*base_\<close>.
\<close>

record 'b UnsafeBufferedWritableFile =
  base :: "'b option"
  offset :: "64 word"
  max_buf_size :: nat
  buf :: string
  calls :: "call list"

definition UnsafeBufferedWritableFile_new ::
  "'b option \<Rightarrow> nat \<Rightarrow> 'b UnsafeBufferedWritableFile" where
  "UnsafeBufferedWritableFile_new b buf_size =
     \<lparr>base = b, offset = 0, max_buf_size = buf_size, buf = [], calls = []\<rparr>"

definition EmptyBuffer ::
  "'b WritableFile \<Rightarrow> 'b UnsafeBufferedWritableFile \<Rightarrow>
   fault + (Status \<times> 'b UnsafeBufferedWritableFile)" where
  "EmptyBuffer W f =
     (let buf_size = length (buf f) in
      if \<not> buf_size \<le> max_buf_size f then Inl AssertionFailed
      else if buf_size \<noteq> 0 then
        (case base f of
           None \<Rightarrow> Inl NullPointer
         | Some b \<Rightarrow>
             (let (status, b') = wAppend W (buf f) b;
                  f1 = f\<lparr>base := Some b',
                         calls := calls f @ [CallAppend (buf f) status]\<rparr>
              in if ok status
                 then Inr (status, f1\<lparr>offset := offset f1 + of_nat buf_size, buf := []\<rparr>)
                 else Inr (status, f1)))
      else Inr (OK, f))"

text \<open>
  The \<^verbatim>\<open>while\<close> loop of \<^verbatim>\<open>Append\<close>, with the loop variables \<^verbatim>\<open>s\<close> and
  \<^verbatim>\<open>chunk\<close>. \<open>None\<close> is the loop that never exits. When \<^verbatim>\<open>buf_\<close> is longer than
  \<^verbatim>\<open>max_buf_size_\<close> the unsigned subtraction for \<^verbatim>\<open>left\<close> wraps around and
  \<^verbatim>\<open>buf_.append\<close> throws \<^verbatim>\<open>std::length_error\<close>.
\<close>

partial_function (option) Append_loop ::
  "'b WritableFile \<Rightarrow> Status \<Rightarrow> string \<Rightarrow> 'b UnsafeBufferedWritableFile \<Rightarrow>
   (fault + (Status \<times> string \<times> 'b UnsafeBufferedWritableFile)) option" where
  "Append_loop W s chunk f =
     (if length (buf f) + length chunk \<ge> max_buf_size f then
        (if max_buf_size f < length (buf f) then Some (Inl LengthError)
         else
           (let left = max_buf_size f - length (buf f);
                f1 = f\<lparr>buf := buf f @ take left chunk\<rparr>
            in case EmptyBuffer W f1 of
                 Inl e \<Rightarrow> Some (Inl e)
               | Inr (s', f2) \<Rightarrow>
                   if ok s' then Append_loop W s' (drop left chunk) f2
                   else Some (Inr (s', chunk, f2))))
      else Some (Inr (s, chunk, f)))"

definition Append ::
  "'b WritableFile \<Rightarrow> string \<Rightarrow> 'b UnsafeBufferedWritableFile \<Rightarrow>
   (fault + (Status \<times> 'b UnsafeBufferedWritableFile)) option" where
  "Append W data f =
     (case Append_loop W OK data f of
        None \<Rightarrow> None
      | Some (Inl e) \<Rightarrow> Some (Inl e)
      | Some (Inr (s, chunk, f1)) \<Rightarrow>
          if \<not> ok s then Some (Inr (s, f1))
          else if length chunk \<noteq> 0 then
            (let f2 = f1\<lparr>buf := buf f1 @ chunk\<rparr>
             in if length (buf f2) \<le> max_buf_size f2 then Some (Inr (s, f2))
                else Some (Inl AssertionFailed))
          else Some (Inr (s, f1)))"

definition SyncBefore ::
  "'b WritableFile \<Rightarrow> 64 word \<Rightarrow> 'b UnsafeBufferedWritableFile \<Rightarrow>
   fault + (Status \<times> 'b UnsafeBufferedWritableFile)" where
  "SyncBefore W x f =
     (if offset f \<ge> x then Inr (OK, f) else EmptyBuffer W f)"

definition Sync ::
  "'b WritableFile \<Rightarrow> 'b UnsafeBufferedWritableFile \<Rightarrow>
   fault + (Status \<times> 'b UnsafeBufferedWritableFile)" where
  "Sync W f =
     (case EmptyBuffer W f of
        Inl e \<Rightarrow> Inl e
      | Inr (s, f1) \<Rightarrow>
          if ok s then
            (case base f1 of
               None \<Rightarrow> Inl NullPointer
             | Some b \<Rightarrow>
                 (let (s', b') = wSync W b
                  in Inr (s', f1\<lparr>base := Some b', calls := calls f1 @ [CallSync s']\<rparr>)))
          else Inr (s, f1))"

definition Flush ::
  "'b UnsafeBufferedWritableFile \<Rightarrow> fault + (Status \<times> 'b UnsafeBufferedWritableFile)" where
  "Flush f = Inr (OK, f)"

definition Close ::
  "'b WritableFile \<Rightarrow> 'b UnsafeBufferedWritableFile \<Rightarrow>
   fault + (Status \<times> 'b UnsafeBufferedWritableFile)" where
  "Close W f =
     (case EmptyBuffer W f of
        Inl e \<Rightarrow> Inl e
      | Inr (s, f1) \<Rightarrow>
          (case base f1 of
             None \<Rightarrow> Inl NullPointer
           | Some b \<Rightarrow>
               (let (cs, b') = wClose W b
                in Inr (s, f1\<lparr>base := None, calls := calls f1 @ [CallClose cs]\<rparr>))))"

text \<open>A caller's sequence of calls on one decorator, each with its arguments.\<close>

datatype op = OpAppend string | OpSyncBefore "64 word" | OpSync | OpFlush | OpEmptyBuffer | OpClose

fun exec ::
  "'b WritableFile \<Rightarrow> op \<Rightarrow> 'b UnsafeBufferedWritableFile \<Rightarrow>
   (fault + (Status \<times> 'b UnsafeBufferedWritableFile)) option" where
  "exec W (OpAppend data) f = Append W data f"
| "exec W (OpSyncBefore x) f = Some (SyncBefore W x f)"
| "exec W OpSync f = Some (Sync W f)"
| "exec W OpFlush f = Some (Flush f)"
| "exec W OpEmptyBuffer f = Some (EmptyBuffer W f)"
| "exec W OpClose f = Some (Close W f)"

text \<open>
  Running a sequence stops at a fault or at a call that never returns; a call that
  returns a failure status does not stop the caller from going on.
\<close>

fun run ::
  "'b WritableFile \<Rightarrow> op list \<Rightarrow> 'b UnsafeBufferedWritableFile \<Rightarrow>
   (fault + 'b UnsafeBufferedWritableFile) option" where
  "run W [] f = Some (Inr f)"
| "run W (x # xs) f =
     (case exec W x f of
        None \<Rightarrow> None
      | Some (Inl e) \<Rightarrow> Some (Inl e)
      | Some (Inr (s, f')) \<Rightarrow> run W xs f')"

text \<open>The bytes of the calls to \<^verbatim>\<open>base_->Append\<close> that returned success.\<close>

fun handed :: "call list \<Rightarrow> string" where
  "handed [] = []"
| "handed (CallAppend d s # cs) = (if ok s then d @ handed cs else handed cs)"
| "handed (c # cs) = handed cs"

declare Append_loop.simps [code]

text \<open>
  The operations that reach \<^verbatim>\<open>EmptyBuffer()\<close> when the buffer of \<open>f\<close> is full: all but
  \<^verbatim>\<open>Flush()\<close> and a \<^verbatim>\<open>SyncBefore(x)\<close> whose target the counter already covers.
\<close>

fun flushing :: "op \<Rightarrow> 'b UnsafeBufferedWritableFile \<Rightarrow> bool" where
  "flushing OpFlush f = False"
| "flushing (OpSyncBefore x) f = (offset f < x)"
| "flushing _ f = True"

subsection \<open>MeasuredWritableFile\<close>

record 'b MeasuredWritableFile =
  mw_base :: "'b option"
  num_syncs :: "32 word"
  num_flushes :: "32 word"
  mw_bytes :: "64 word"
  mw_ops :: "64 word"

definition MeasuredWritableFile_Reset ::
  "'b option \<Rightarrow> 'b MeasuredWritableFile \<Rightarrow> 'b MeasuredWritableFile" where
  "MeasuredWritableFile_Reset b m =
     m\<lparr>num_syncs := 0, num_flushes := 0, mw_bytes := 0, mw_ops := 0, mw_base := b\<rparr>"

definition MeasuredWritableFile_new :: "'b option \<Rightarrow> 'b MeasuredWritableFile" where
  "MeasuredWritableFile_new b =
     \<lparr>mw_base = b, num_syncs = 0, num_flushes = 0, mw_bytes = 0, mw_ops = 0\<rparr>"

definition MeasuredWritableFile_Flush ::
  "'b WritableFile \<Rightarrow> 'b MeasuredWritableFile \<Rightarrow> Status \<times> 'b MeasuredWritableFile" where
  "MeasuredWritableFile_Flush W m =
     (case mw_base m of
        None \<Rightarrow> (Disconnected [], m)
      | Some b \<Rightarrow>
          (let (status, b') = wFlush W b; m1 = m\<lparr>mw_base := Some b'\<rparr>
           in if ok status then (status, m1\<lparr>num_flushes := num_flushes m1 + 1\<rparr>)
              else (status, m1)))"

definition MeasuredWritableFile_Sync ::
  "'b WritableFile \<Rightarrow> 'b MeasuredWritableFile \<Rightarrow> Status \<times> 'b MeasuredWritableFile" where
  "MeasuredWritableFile_Sync W m =
     (case mw_base m of
        None \<Rightarrow> (Disconnected [], m)
      | Some b \<Rightarrow>
          (let (status, b') = wSync W b; m1 = m\<lparr>mw_base := Some b'\<rparr>
           in if ok status then (status, m1\<lparr>num_syncs := num_syncs m1 + 1\<rparr>)
              else (status, m1)))"

definition MeasuredWritableFile_Append ::
  "'b WritableFile \<Rightarrow> string \<Rightarrow> 'b MeasuredWritableFile \<Rightarrow>
   Status \<times> 'b MeasuredWritableFile" where
  "MeasuredWritableFile_Append W data m =
     (case mw_base m of
        None \<Rightarrow> (Disconnected [], m)
      | Some b \<Rightarrow>
          (let (status, b') = wAppend W data b; m1 = m\<lparr>mw_base := Some b'\<rparr>
           in if ok status
              then (status, m1\<lparr>mw_bytes := mw_bytes m1 + of_nat (length data),
                                mw_ops := mw_ops m1 + 1\<rparr>)
              else (status, m1)))"

definition MeasuredWritableFile_Close ::
  "'b WritableFile \<Rightarrow> 'b MeasuredWritableFile \<Rightarrow> Status \<times> 'b MeasuredWritableFile" where
  "MeasuredWritableFile_Close W m =
     (case mw_base m of
        Some b \<Rightarrow> (let (status, b') = wClose W b in (status, m\<lparr>mw_base := None\<rparr>))
      | None \<Rightarrow> (OK, m))"

text \<open>The four counters, as the accessors return them.\<close>

definition MeasuredWritableFile_counters ::
  "'b MeasuredWritableFile \<Rightarrow> 32 word \<times> 32 word \<times> 64 word \<times> 64 word" where
  "MeasuredWritableFile_counters m = (num_flushes m, num_syncs m, mw_bytes m, mw_ops m)"

subsection \<open>MeasuredSequentialFile\<close>

record 'r MeasuredSequentialFile =
  ms_base :: "'r option"
  ms_bytes :: "64 word"
  ms_ops :: "64 word"

definition MeasuredSequentialFile_Reset ::
  "'r option \<Rightarrow> 'r MeasuredSequentialFile \<Rightarrow> 'r MeasuredSequentialFile" where
  "MeasuredSequentialFile_Reset r m = m\<lparr>ms_bytes := 0, ms_ops := 0, ms_base := r\<rparr>"

definition MeasuredSequentialFile_new :: "'r option \<Rightarrow> 'r MeasuredSequentialFile" where
  "MeasuredSequentialFile_new r = \<lparr>ms_base = r, ms_bytes = 0, ms_ops = 0\<rparr>"

text \<open>
  \<^verbatim>\<open>Read(n, result, scratch)\<close>: \<open>result\<close> is what \<^verbatim>\<open>*result\<close> holds before the call, and
  the second component of the value is what it holds after.
\<close>

definition MeasuredSequentialFile_Read ::
  "'r SequentialFile \<Rightarrow> 64 word \<Rightarrow> string \<Rightarrow> 'r MeasuredSequentialFile \<Rightarrow>
   Status \<times> string \<times> 'r MeasuredSequentialFile" where
  "MeasuredSequentialFile_Read R n result m =
     (case ms_base m of
        None \<Rightarrow> (Disconnected [], result, m)
      | Some r \<Rightarrow>
          (let ((status, result'), r') = sRead R n result r; m1 = m\<lparr>ms_base := Some r'\<rparr>
           in if ok status
              then (status, result', m1\<lparr>ms_bytes := ms_bytes m1 + of_nat (length result'),
                                         ms_ops := ms_ops m1 + 1\<rparr>)
              else (status, result', m1)))"

definition MeasuredSequentialFile_Skip ::
  "'r SequentialFile \<Rightarrow> 64 word \<Rightarrow> 'r MeasuredSequentialFile \<Rightarrow>
   Status \<times> 'r MeasuredSequentialFile" where
  "MeasuredSequentialFile_Skip R n m =
     (case ms_base m of
        None \<Rightarrow> (Disconnected [], m)
      | Some r \<Rightarrow> (let (status, r') = sSkip R n r in (status, m\<lparr>ms_base := Some r'\<rparr>)))"

subsection \<open>WholeFileBufferedRandomAccessFile\<close>

text \<open>
  A \<^verbatim>\<open>Slice\<close> is a pointer and a length. The two pointers \<^verbatim>\<open>Read\<close> builds are the
  empty string of \<^verbatim>\<open>Slice()\<close> and \<^verbatim>\<open>buf_ + offset\<close>.
\<close>

datatype pointer = EmptyString | InBuf "64 word"

record Slice =
  sl_data :: pointer
  sl_size :: "64 word"

text \<open>
  \<open>wf_buf\<close> is the array \<^verbatim>\<open>char[max_buf_size_]\<close>, \<open>wf_buf_size\<close> the number of bytes
  loaded into it (\<^verbatim>\<open>size_t\<close>, 64 bits).
\<close>

record 'r WholeFileBufferedRandomAccessFile =
  wf_base :: "'r option"
  wf_max_buf_size :: "64 word"
  wf_io_size :: "64 word"
  wf_buf_size :: "64 word"
  wf_buf :: string

text \<open>
  The constructor; \<^verbatim>\<open>new char[max_buf_size_]\<close> does not initialise the array, so its
  first content \<open>mem\<close> is a parameter.
\<close>

definition WholeFileBufferedRandomAccessFile_new ::
  "'r option \<Rightarrow> 64 word \<Rightarrow> 64 word \<Rightarrow> string \<Rightarrow> 'r WholeFileBufferedRandomAccessFile" where
  "WholeFileBufferedRandomAccessFile_new r buf_size io_size mem =
     \<lparr>wf_base = r, wf_max_buf_size = buf_size, wf_io_size = io_size, wf_buf_size = 0,
      wf_buf = take (unat buf_size) mem\<rparr>"

definition WholeFileBufferedRandomAccessFile_Read ::
  "'r WholeFileBufferedRandomAccessFile \<Rightarrow> 64 word \<Rightarrow> 64 word \<Rightarrow> Status \<times> Slice" where
  "WholeFileBufferedRandomAccessFile_Read f off n =
     (if off < wf_buf_size f then
        (let n' = (if n > wf_buf_size f - off then wf_buf_size f - off else n)
         in (OK, \<lparr>sl_data = InBuf off, sl_size = n'\<rparr>))
      else (OK, \<lparr>sl_data = EmptyString, sl_size = 0\<rparr>))"

text \<open>The bytes a slice returned by \<^verbatim>\<open>Read\<close> shows.\<close>

definition Slice_bytes :: "'r WholeFileBufferedRandomAccessFile \<Rightarrow> Slice \<Rightarrow> string" where
  "Slice_bytes f sl =
     (case sl_data sl of
        EmptyString \<Rightarrow> []
      | InBuf off \<Rightarrow> take (unat (sl_size sl)) (drop (unat off) (wf_buf f)))"

subsection \<open>Wrapped files used in the examples\<close>

text \<open>A writer that keeps what it is given and never fails.\<close>

definition mem_writer :: "string WritableFile" where
  "mem_writer =
     \<lparr>wAppend = (\<lambda>d b. (OK, b @ d)), wFlush = (\<lambda>b. (OK, b)),
      wSync = (\<lambda>b. (OK, b)), wClose = (\<lambda>b. (OK, b))\<rparr>"

text \<open>A writer whose state is the number of calls that will still succeed.\<close>

definition budget_writer :: "nat WritableFile" where
  "budget_writer =
     \<lparr>wAppend = (\<lambda>d n. if n = 0 then (IOError ''no space'', 0) else (OK, n - 1)),
      wFlush = (\<lambda>n. if n = 0 then (IOError ''no space'', 0) else (OK, n - 1)),
      wSync = (\<lambda>n. if n = 0 then (IOError ''no space'', 0) else (OK, n - 1)),
      wClose = (\<lambda>n. (OK, n))\<rparr>"

text \<open>A reader over a string in memory: its state is what is left to read.\<close>

definition mem_reader :: "string SequentialFile" where
  "mem_reader =
     \<lparr>sRead = (\<lambda>n result r. ((OK, take (unat n) r), drop (unat n) r)),
      sSkip = (\<lambda>n r. (OK, drop (unat n) r))\<rparr>"

text \<open>A reader that fails every call.\<close>

definition broken_reader :: "unit SequentialFile" where
  "broken_reader =
     \<lparr>sRead = (\<lambda>n result r. ((IOError ''bad sector'', result), r)),
      sSkip = (\<lambda>n r. (IOError ''bad sector'', r))\<rparr>"

subsection \<open>What the loop of Append establishes\<close>

text \<open>
  The relation between the state \<open>f\<close> and the loop variables on entry and the state \<open>f'\<close>
  and the loop variables on exit: the calls made in between are \<open>new\<close>, the counter has
  moved by the bytes they handed over, and the bytes seen so far are those handed over,
  then the buffer, then \<open>rest\<close>. The loop exits either through its test, with room left
  in the buffer and every call a success, or through \<^verbatim>\<open>break\<close>, with a full buffer
  whose flush just failed, the first call to fail.
\<close>

text \<open>A call on the wrapped writer that returned success.\<close>

fun call_ok :: "call \<Rightarrow> bool" where
  "call_ok (CallAppend d s) = ok s"
| "call_ok (CallFlush s) = ok s"
| "call_ok (CallSync s) = ok s"
| "call_ok (CallClose s) = ok s"

definition loop_post ::
  "Status \<Rightarrow> string \<Rightarrow> 'b UnsafeBufferedWritableFile \<Rightarrow>
   Status \<Rightarrow> string \<Rightarrow> 'b UnsafeBufferedWritableFile \<Rightarrow> bool" where
  "loop_post s chunk f s' chunk' f' \<longleftrightarrow>
     max_buf_size f' = max_buf_size f \<and> (base f' = None) = (base f = None) \<and>
     (\<exists>new rest. calls f' = calls f @ new \<and>
        offset f' = offset f + of_nat (length (handed new)) \<and>
        buf f @ chunk = handed new @ buf f' @ rest \<and>
        (if ok s'
         then length (buf f') + length chunk' < max_buf_size f \<and> rest = chunk' \<and>
              list_all call_ok new
         else length (buf f') = max_buf_size f \<and> new \<noteq> [] \<and>
              last new = CallAppend (buf f') s' \<and> list_all call_ok (butlast new)))"

text \<open>From a buffer within its capacity the only fault is the call through NULL.\<close>

definition loop_spec ::
  "Status \<Rightarrow> string \<Rightarrow> 'b UnsafeBufferedWritableFile \<Rightarrow>
   fault + (Status \<times> string \<times> 'b UnsafeBufferedWritableFile) \<Rightarrow> bool" where
  "loop_spec s chunk f y \<longleftrightarrow>
     (length (buf f) \<le> max_buf_size f \<longrightarrow> ok s \<longrightarrow>
       (case y of Inl e \<Rightarrow> e = NullPointer \<and> base f = None
        | Inr (s', chunk', f') \<Rightarrow> loop_post s chunk f s' chunk' f'))"

section \<open>Properties\<close>

subsection \<open>EmptyBuffer and the loop of Append\<close>

lemma handed_append: "handed (xs @ ys) = handed xs @ handed ys"
  by (induction xs rule: handed.induct) simp_all

lemma EmptyBuffer_Inr:
  assumes "EmptyBuffer W f = Inr (st, f')"
  shows "max_buf_size f' = max_buf_size f"
    and "(base f' = None) = (base f = None)"
    and "calls f' = calls f @ (if buf f = [] then [] else [CallAppend (buf f) st])"
    and "offset f' = offset f + of_nat (length (handed (if buf f = [] then [] else [CallAppend (buf f) st])))"
    and "ok st \<Longrightarrow> buf f' = []"
    and "\<not> ok st \<Longrightarrow> buf f' = buf f \<and> buf f \<noteq> []"
    and "length (buf f) \<le> max_buf_size f"
  using assms
  by (auto simp: EmptyBuffer_def Let_def split: if_splits option.splits prod.splits)

lemma EmptyBuffer_Inl:
  assumes "EmptyBuffer W f = Inl e" "length (buf f) \<le> max_buf_size f"
  shows "e = NullPointer \<and> base f = None \<and> buf f \<noteq> []"
  using assms
  by (auto simp: EmptyBuffer_def Let_def split: if_splits option.splits prod.splits)

lemma Append_loop_post:
  assumes "Append_loop W s chunk f = Some y"
  shows "loop_spec s chunk f y"
proof (rule Append_loop.raw_induct[where P = "\<lambda>W s chunk f y. loop_spec s chunk f y", OF _ assms])
  fix loop :: "'a WritableFile \<Rightarrow> Status \<Rightarrow> string \<Rightarrow> 'a UnsafeBufferedWritableFile \<Rightarrow>
     (fault + (Status \<times> string \<times> 'a UnsafeBufferedWritableFile)) option"
  fix W s chunk f y
  assume 1: "\<And>W s chunk f y. loop W s chunk f = Some y \<Longrightarrow> loop_spec s chunk f y"
   "(if length (buf f) + length chunk \<ge> max_buf_size f then
        (if max_buf_size f < length (buf f) then Some (Inl LengthError)
         else
           (let left = max_buf_size f - length (buf f);
                f1 = f\<lparr>buf := buf f @ take left chunk\<rparr>
            in case EmptyBuffer W f1 of
                 Inl e \<Rightarrow> Some (Inl e)
               | Inr (s', f2) \<Rightarrow>
                   if ok s' then loop W s' (drop left chunk) f2
                   else Some (Inr (s', chunk, f2))))
      else Some (Inr (s, chunk, f))) = Some y"
  show "loop_spec s chunk f y" unfolding loop_spec_def
  proof (intro impI)
    assume within: "length (buf f) \<le> max_buf_size f" and oks: "ok s"
    show "case y of Inl e \<Rightarrow> e = NullPointer \<and> base f = None
      | Inr (s', chunk', f') \<Rightarrow> loop_post s chunk f s' chunk' f'"
    proof (cases "max_buf_size f \<le> length (buf f) + length chunk")
      case False
      with 1(2) have "y = Inr (s, chunk, f)" by simp
      with False oks show ?thesis by (simp add: loop_post_def)
    next
      case True
      define left where "left = max_buf_size f - length (buf f)"
      define f1 where "f1 = f\<lparr>buf := buf f @ take left chunk\<rparr>"
      have len1: "length (buf f1) = max_buf_size f"
        using True within by (simp add: f1_def left_def)
      have eq: "(case EmptyBuffer W f1 of Inl e \<Rightarrow> Some (Inl e)
                 | Inr (s', f2) \<Rightarrow> if ok s' then loop W s' (drop left chunk) f2
                                  else Some (Inr (s', chunk, f2))) = Some y"
        using 1(2) True within unfolding f1_def left_def by (simp add: Let_def)
      show ?thesis
      proof (cases "EmptyBuffer W f1")
        case (Inl e)
        with eq have y: "y = Inl e" by simp
        from EmptyBuffer_Inl[OF Inl] len1 have "e = NullPointer \<and> base f1 = None"
          by (simp add: f1_def)
        with y show ?thesis by (simp add: f1_def)
      next
        case (Inr r)
        obtain s' f2 where r: "r = (s', f2)" by (cases r)
        note E = EmptyBuffer_Inr[OF Inr[unfolded r]]
        show ?thesis
        proof (cases "ok s'")
          case False
          with eq Inr r have y: "y = Inr (s', chunk, f2)" by simp
          have ne: "buf f1 \<noteq> []" using E(6)[OF False] by simp
          have "loop_post s chunk f s' chunk f2"
            unfolding loop_post_def
            apply (intro conjI)
            using E apply (simp add: f1_def)
            using E apply (simp add: f1_def)
            apply (rule exI[of _ "[CallAppend (buf f1) s']"])
            apply (rule exI[of _ "drop left chunk"])
            using E False len1 ne apply (simp add: f1_def)
            done
          with y show ?thesis by simp
        next
          case ok': True
          with eq Inr r have rec: "loop W s' (drop left chunk) f2 = Some y" by simp
          have inv2: "length (buf f2) \<le> max_buf_size f2" using E ok' by simp
          from 1(1)[OF rec] inv2 ok'
          have IH: "case y of Inl e \<Rightarrow> e = NullPointer \<and> base f2 = None
            | Inr (s'', chunk', f') \<Rightarrow> loop_post s' (drop left chunk) f2 s'' chunk' f'"
            by (simp add: loop_spec_def)
          show ?thesis
          proof (cases y)
            case (Inl e)
            with IH E show ?thesis by (simp add: f1_def)
          next
            case (Inr t)
            obtain s'' chunk' f' where t: "t = (s'', chunk', f')" by (cases t)
            from IH Inr t have lp: "loop_post s' (drop left chunk) f2 s'' chunk' f'" by simp
            then obtain new rest where
              n1: "max_buf_size f' = max_buf_size f2" and n2: "(base f' = None) = (base f2 = None)"
              and n3: "calls f' = calls f2 @ new"
              and n4: "offset f' = offset f2 + of_nat (length (handed new))"
              and n5: "buf f2 @ drop left chunk = handed new @ buf f' @ rest"
              and n6: "(if ok s''
                 then length (buf f') + length chunk' < max_buf_size f2 \<and> rest = chunk' \<and>
                      list_all call_ok new
                 else length (buf f') = max_buf_size f2 \<and> new \<noteq> [] \<and>
                      last new = CallAppend (buf f') s'' \<and> list_all call_ok (butlast new))"
              unfolding loop_post_def by - (elim conjE exE, rule that)
            define c where "c = (if buf f1 = [] then [] else [CallAppend (buf f1) s'])"
            have hc: "handed c = buf f1" using ok' by (simp add: c_def)
            have kc: "list_all call_ok c" using ok' by (simp add: c_def)
            have c2: "calls f2 = calls f @ c" using E(3) by (simp add: c_def f1_def)
            have o2: "offset f2 = offset f + of_nat (length (handed c))"
              using E(4) by (simp add: c_def f1_def)
            have b2: "buf f2 = []" using E(5) ok' by simp
            have m2: "max_buf_size f2 = max_buf_size f" using E(1) by (simp add: f1_def)
            have p1: "calls f' = calls f @ (c @ new)" using n3 c2 by simp
            have p2: "offset f' = offset f + of_nat (length (handed (c @ new)))"
              using n4 o2 by (simp add: handed_append)
            have "buf f @ chunk = buf f1 @ drop left chunk" by (simp add: f1_def)
            also have "\<dots> = handed c @ (buf f2 @ drop left chunk)" using hc b2 by simp
            finally have p3: "buf f @ chunk = handed (c @ new) @ buf f' @ rest"
              using n5 by (simp add: handed_append)
            have p4: "(if ok s''
                 then length (buf f') + length chunk' < max_buf_size f \<and> rest = chunk' \<and>
                      list_all call_ok (c @ new)
                 else length (buf f') = max_buf_size f \<and> c @ new \<noteq> [] \<and>
                      last (c @ new) = CallAppend (buf f') s'' \<and>
                      list_all call_ok (butlast (c @ new)))"
              using n6 m2 kc by (simp add: butlast_append split: if_splits)
            have "loop_post s chunk f s'' chunk' f'"
              unfolding loop_post_def
              using n1 n2 m2 E(2) p1 p2 p3 p4 by (auto simp: f1_def)
            with Inr t show ?thesis by simp
          qed
        qed
      qed
    qed
  qed
qed


lemma Append_loop_returns:
  "0 < max_buf_size f \<Longrightarrow> \<exists>y. Append_loop W s chunk f = Some y"
proof (induction "2 * length chunk + (if buf f = [] then 0 else 1)"
       arbitrary: s chunk f rule: less_induct)
  case less
  show ?case
  proof (cases "max_buf_size f \<le> length (buf f) + length chunk \<and> \<not> max_buf_size f < length (buf f)")
    case False
    then show ?thesis by (subst Append_loop.simps) auto
  next
    case True
    define left where "left = max_buf_size f - length (buf f)"
    define f1 where "f1 = f\<lparr>buf := buf f @ take left chunk\<rparr>"
    have unf: "Append_loop W s chunk f =
         (case EmptyBuffer W f1 of Inl e \<Rightarrow> Some (Inl e)
          | Inr (s', f2) \<Rightarrow> if ok s' then Append_loop W s' (drop left chunk) f2
                           else Some (Inr (s', chunk, f2)))"
      using True unfolding f1_def left_def by (subst Append_loop.simps) (simp add: Let_def)
    show ?thesis
    proof (cases "EmptyBuffer W f1")
      case (Inl e)
      then show ?thesis by (simp add: unf)
    next
      case (Inr r)
      obtain s' f2 where r: "r = (s', f2)" by (cases r)
      note E = EmptyBuffer_Inr[OF Inr[unfolded r]]
      show ?thesis
      proof (cases "ok s'")
        case False
        then show ?thesis by (simp add: unf Inr r)
      next
        case ok': True
        have b2: "buf f2 = []" using E(5) ok' by simp
        have m2: "0 < max_buf_size f2" using E(1) less.prems by (simp add: f1_def)
        have "2 * length (drop left chunk) + (if buf f2 = [] then 0 else 1)
              < 2 * length chunk + (if buf f = [] then 0 else 1)"
          using True less.prems b2 by (auto simp: left_def)
        from less.hyps[OF this m2] obtain y where "Append_loop W s' (drop left chunk) f2 = Some y"
          by blast
        then show ?thesis by (simp add: unf Inr r ok')
      qed
    qed
  qed
qed

lemma Append_loop_diverges:
  assumes "Append_loop W s chunk f = Some y"
  shows "\<not> (max_buf_size f = 0 \<and> buf f = [])"
proof (rule Append_loop.raw_induct[where P = "\<lambda>W s chunk f y. \<not> (max_buf_size f = 0 \<and> buf f = [])", OF _ assms])
  fix loop :: "'a WritableFile \<Rightarrow> Status \<Rightarrow> string \<Rightarrow> 'a UnsafeBufferedWritableFile \<Rightarrow>
     (fault + (Status \<times> string \<times> 'a UnsafeBufferedWritableFile)) option"
  fix W s chunk f y
  assume IH: "\<And>W s chunk f y. loop W s chunk f = Some y \<Longrightarrow> \<not> (max_buf_size f = 0 \<and> buf f = [])"
    and body: "(if length (buf f) + length chunk \<ge> max_buf_size f then
        (if max_buf_size f < length (buf f) then Some (Inl LengthError)
         else
           (let left = max_buf_size f - length (buf f);
                f1 = f\<lparr>buf := buf f @ take left chunk\<rparr>
            in case EmptyBuffer W f1 of
                 Inl e \<Rightarrow> Some (Inl e)
               | Inr (s', f2) \<Rightarrow>
                   if ok s' then loop W s' (drop left chunk) f2
                   else Some (Inr (s', chunk, f2))))
      else Some (Inr (s, chunk, f))) = Some y"
  show "\<not> (max_buf_size f = 0 \<and> buf f = [])"
  proof
    assume z: "max_buf_size f = 0 \<and> buf f = []"
    then have "EmptyBuffer W (f\<lparr>buf := []\<rparr>) = Inr (OK, f\<lparr>buf := []\<rparr>)"
      by (simp add: EmptyBuffer_def)
    with body z have "loop W OK chunk (f\<lparr>buf := []\<rparr>) = Some y"
      by (simp add: Let_def)
    from IH[OF this] z show False by simp
  qed
qed

lemma Append_never_returns:
  "max_buf_size f = 0 \<Longrightarrow> buf f = [] \<Longrightarrow> Append W data f = None"
proof -
  assume a: "max_buf_size f = 0" "buf f = []"
  have "Append_loop W OK data f = None"
  proof (cases "Append_loop W OK data f")
    case (Some y)
    from Append_loop_diverges[OF this] a show ?thesis by simp
  qed simp
  then show ?thesis by (simp add: Append_def)
qed

lemma Append_Inr:
  assumes A: "Append W data f = Some (Inr (st, f'))" and I: "length (buf f) \<le> max_buf_size f"
  shows "max_buf_size f' = max_buf_size f \<and> (base f' = None) = (base f = None) \<and>
     (\<exists>new rest. calls f' = calls f @ new \<and>
        offset f' = offset f + of_nat (length (handed new)) \<and>
        buf f @ data = handed new @ buf f' @ rest \<and>
        (if ok st then length (buf f') < max_buf_size f \<and> rest = [] \<and> list_all call_ok new
         else length (buf f') = max_buf_size f \<and> new \<noteq> [] \<and>
              last new = CallAppend (buf f') st \<and> list_all call_ok (butlast new)))"
proof -
  from A obtain y where L: "Append_loop W OK data f = Some y"
    by (cases "Append_loop W OK data f") (auto simp: Append_def)
  from Append_loop_post[OF L] I have
    S: "case y of Inl e \<Rightarrow> e = NullPointer \<and> base f = None
        | Inr (s', chunk', f') \<Rightarrow> loop_post OK data f s' chunk' f'"
    by (simp add: loop_spec_def)
  from A L obtain s chunk f1 where y: "y = Inr (s, chunk, f1)"
    by (cases y) (auto simp: Append_def)
  from S y have lp: "loop_post OK data f s chunk f1" by simp
  then obtain new rest where
        n1: "max_buf_size f1 = max_buf_size f" and n2: "(base f1 = None) = (base f = None)"
    and n3: "calls f1 = calls f @ new"
    and n4: "offset f1 = offset f + of_nat (length (handed new))"
    and n5: "buf f @ data = handed new @ buf f1 @ rest"
    and n6: "(if ok s
             then length (buf f1) + length chunk < max_buf_size f \<and> rest = chunk \<and>
                  list_all call_ok new
             else length (buf f1) = max_buf_size f \<and> new \<noteq> [] \<and>
                  last new = CallAppend (buf f1) s \<and> list_all call_ok (butlast new))"
    unfolding loop_post_def by - (elim conjE exE, rule that)
  show ?thesis
  proof (cases "ok s")
    case False
    with A L y have "st = s" "f' = f1" by (auto simp: Append_def)
    with False n1 n2 n3 n4 n5 n6 show ?thesis by auto
  next
    case True
    with n6 have lt: "length (buf f1) + length chunk < max_buf_size f" and r: "rest = chunk"
      and k: "list_all call_ok new" by auto
    from A L y True lt n1 have st: "st = s" and f': "f' = f1\<lparr>buf := buf f1 @ chunk\<rparr>"
      by (auto simp: Append_def Let_def split: if_splits)
    show ?thesis
      apply (intro conjI)
      using n1 f' apply simp
      using n2 f' apply simp
      apply (rule exI[of _ new])
      apply (rule exI[of _ "[]"])
      using n3 n4 n5 r lt k True st f' apply simp
      done
  qed
qed

lemma Append_Inl:
  assumes A: "Append W data f = Some (Inl e)" and I: "length (buf f) \<le> max_buf_size f"
  shows "e = NullPointer \<and> base f = None"
proof -
  from A obtain y where L: "Append_loop W OK data f = Some y"
    by (cases "Append_loop W OK data f") (auto simp: Append_def)
  from Append_loop_post[OF L] I have
    S: "case y of Inl e \<Rightarrow> e = NullPointer \<and> base f = None
        | Inr (s', chunk', f') \<Rightarrow> loop_post OK data f s' chunk' f'"
    by (simp add: loop_spec_def)
  show ?thesis
  proof (cases y)
    case (Inl e')
    with A L S show ?thesis by (auto simp: Append_def)
  next
    case (Inr t)
    obtain s chunk f1 where t: "t = (s, chunk, f1)" by (cases t)
    from S Inr t have lp: "loop_post OK data f s chunk f1" by simp
    then have "ok s \<Longrightarrow> length (buf f1) + length chunk < max_buf_size f1"
      unfolding loop_post_def by auto
    with A L Inr t show ?thesis
      by (auto simp: Append_def Let_def split: if_splits)
  qed
qed

lemma Append_returns:
  "0 < max_buf_size f \<Longrightarrow> \<exists>r. Append W data f = Some r"
proof -
  assume "0 < max_buf_size f"
  from Append_loop_returns[OF this] obtain y where "Append_loop W OK data f = Some y" by blast
  then show ?thesis
    by (cases y) (auto simp: Append_def Let_def split: prod.splits)
qed

subsection \<open>Sequences of calls\<close>

lemma exec_step:
  assumes X: "exec W x f = Some (Inr (st, f'))" and I: "length (buf f) \<le> max_buf_size f"
  shows "max_buf_size f' = max_buf_size f \<and> length (buf f') \<le> max_buf_size f \<and>
         (\<exists>new. calls f' = calls f @ new \<and> offset f' = offset f + of_nat (length (handed new)))"
proof (cases x)
  case (OpAppend d)
  with X have A: "Append W d f = Some (Inr (st, f'))" by simp
  from Append_Inr[OF A I] show ?thesis by (auto split: if_splits)
next
  case (OpSyncBefore y)
  show ?thesis
  proof (cases "y \<le> offset f")
    case True
    with X OpSyncBefore I show ?thesis by (simp add: SyncBefore_def)
  next
    case False
    with X OpSyncBefore have E: "EmptyBuffer W f = Inr (st, f')" by (simp add: SyncBefore_def)
    from EmptyBuffer_Inr[OF E] I show ?thesis by (cases "ok st") auto
  qed
next
  case OpSync
  with X obtain s1 f1 where E: "EmptyBuffer W f = Inr (s1, f1)"
    by (cases "EmptyBuffer W f") (auto simp: Sync_def)
  note F = EmptyBuffer_Inr[OF E]
  show ?thesis
  proof (cases "ok s1")
    case False
    with X OpSync E have "f' = f1" by (simp add: Sync_def)
    with F False I show ?thesis by auto
  next
    case True
    with X OpSync E obtain b s' b' where "base f1 = Some b" "wSync W b = (s', b')"
      and f': "f' = f1\<lparr>base := Some b', calls := calls f1 @ [CallSync s']\<rparr>"
      by (auto simp: Sync_def split: option.splits prod.splits)
    have c: "calls f' = calls f @ ((if buf f = [] then [] else [CallAppend (buf f) s1]) @ [CallSync s'])"
      using F(3) f' by simp
    have o: "offset f' = offset f + of_nat (length (handed ((if buf f = [] then [] else [CallAppend (buf f) s1]) @ [CallSync s'])))"
      using F(4) f' by (simp add: handed_append)
    from c o F True f' show ?thesis by auto
  qed
next
  case OpFlush
  with X I show ?thesis by (simp add: Flush_def)
next
  case OpEmptyBuffer
  with X have E: "EmptyBuffer W f = Inr (st, f')" by simp
  from EmptyBuffer_Inr[OF E] I show ?thesis by (cases "ok st") auto
next
  case OpClose
  with X obtain f1 where E: "EmptyBuffer W f = Inr (st, f1)"
    by (cases "EmptyBuffer W f") (auto simp: Close_def split: option.splits prod.splits)
  note F = EmptyBuffer_Inr[OF E]
  from X OpClose E obtain cs where f': "f' = f1\<lparr>base := None, calls := calls f1 @ [CallClose cs]\<rparr>"
    by (auto simp: Close_def split: option.splits prod.splits)
  have c: "calls f' = calls f @ ((if buf f = [] then [] else [CallAppend (buf f) st]) @ [CallClose cs])"
    using F(3) f' by simp
  have o: "offset f' = offset f + of_nat (length (handed ((if buf f = [] then [] else [CallAppend (buf f) st]) @ [CallClose cs])))"
    using F(4) f' by (simp add: handed_append)
  from c o F f' I show ?thesis by (cases "ok st") auto
qed


text \<open>An operation that flushes a full buffer starts by passing it to the wrapped writer.\<close>

lemma Append_on_full_buffer:
  assumes A: "Append W d f = Some (Inr (st2, f2))"
      and full: "length (buf f) = max_buf_size f" and ne: "buf f \<noteq> []"
  shows "\<exists>s more. calls f2 = calls f @ CallAppend (buf f) s # more \<and> (ok st2 \<longrightarrow> ok s) \<and>
           (\<not> ok s \<longrightarrow> st2 = s \<and> buf f2 = buf f \<and> offset f2 = offset f)"
proof -
  have unf: "Append_loop W OK d f =
         (case EmptyBuffer W f of Inl e \<Rightarrow> Some (Inl e)
          | Inr (s', fa) \<Rightarrow> if ok s' then Append_loop W s' (drop 0 d) fa
                           else Some (Inr (s', d, fa)))"
    using full by (subst Append_loop.simps) (simp add: Let_def)
  show ?thesis
  proof (cases "EmptyBuffer W f")
    case (Inl e)
    with unf A show ?thesis by (simp add: Append_def)
  next
    case (Inr r)
    obtain s' fa where r: "r = (s', fa)" by (cases r)
    note E = EmptyBuffer_Inr[OF Inr[unfolded r]]
    have ca: "calls fa = calls f @ [CallAppend (buf f) s']" using E(3) ne by simp
    show ?thesis
    proof (cases "ok s'")
      case False
      with unf Inr r have "Append_loop W OK d f = Some (Inr (s', d, fa))" by simp
      with A False have "f2 = fa" "st2 = s'" by (simp_all add: Append_def)
      moreover have "buf fa = buf f" using E(6)[OF False] by simp
      moreover have "offset fa = offset f" using E(4) ne False by simp
      ultimately show ?thesis using ca False by simp
    next
      case True
      with unf Inr r have L: "Append_loop W OK d f = Append_loop W s' d fa" by simp
      with A obtain y where y: "Append_loop W s' d fa = Some y"
        by (cases "Append_loop W s' d fa") (auto simp: Append_def)
      have "length (buf fa) \<le> max_buf_size fa" using E(5)[OF True] by simp
      with Append_loop_post[OF y] True have
        S: "case y of Inl e \<Rightarrow> e = NullPointer \<and> base fa = None
            | Inr (s'', chunk', fb) \<Rightarrow> loop_post s' d fa s'' chunk' fb"
        by (simp add: loop_spec_def)
      from A L y obtain s'' chunk' fb where yy: "y = Inr (s'', chunk', fb)"
        by (cases y) (auto simp: Append_def)
      with S obtain new where "calls fb = calls fa @ new" by (auto simp: loop_post_def)
      moreover from A L y yy have "calls f2 = calls fb"
        by (auto simp: Append_def Let_def split: if_splits)
      ultimately have "calls f2 = calls f @ CallAppend (buf f) s' # new" using ca by simp
      with True show ?thesis by blast
    qed
  qed
qed

lemma exec_on_full_buffer:
  assumes X: "exec W x f = Some (Inr (st2, f2))" and fl: "flushing x f"
      and full: "length (buf f) = max_buf_size f" and ne: "buf f \<noteq> []"
  shows "\<exists>s more. calls f2 = calls f @ CallAppend (buf f) s # more \<and> (ok st2 \<longrightarrow> ok s) \<and>
           (\<not> ok s \<longrightarrow> st2 = s \<and> buf f2 = buf f \<and> offset f2 = offset f)"
proof -
  have flush: "\<exists>s more. calls f2 = calls f @ CallAppend (buf f) s # more \<and> (ok st2 \<longrightarrow> ok s) \<and>
           (\<not> ok s \<longrightarrow> st2 = s \<and> buf f2 = buf f \<and> offset f2 = offset f)"
    if E: "EmptyBuffer W f = Inr (st2, f2)"
  proof -
    note F = EmptyBuffer_Inr[OF E]
    have "calls f2 = calls f @ CallAppend (buf f) st2 # []" using F(3) ne by simp
    moreover have "\<not> ok st2 \<Longrightarrow> buf f2 = buf f \<and> offset f2 = offset f"
      using F(4) F(6) ne by simp
    ultimately show ?thesis by blast
  qed
  show ?thesis
  proof (cases x)
    case (OpAppend d)
    with X have "Append W d f = Some (Inr (st2, f2))" by simp
    from Append_on_full_buffer[OF this full ne] show ?thesis .
  next
    case (OpSyncBefore y)
    with fl have "\<not> y \<le> offset f" by (simp add: not_le)
    with X OpSyncBefore have "EmptyBuffer W f = Inr (st2, f2)" by (simp add: SyncBefore_def)
    then show ?thesis by (rule flush)
  next
    case OpSync
    with X obtain s1 f1 where E: "EmptyBuffer W f = Inr (s1, f1)"
      by (cases "EmptyBuffer W f") (auto simp: Sync_def)
    note F = EmptyBuffer_Inr[OF E]
    have c: "calls f1 = calls f @ [CallAppend (buf f) s1]" using F(3) ne by simp
    show ?thesis
    proof (cases "ok s1")
      case True
      with X OpSync E obtain s' where "calls f2 = calls f1 @ [CallSync s']"
        by (auto simp: Sync_def split: option.splits prod.splits)
      with c have "calls f2 = calls f @ CallAppend (buf f) s1 # [CallSync s']" by simp
      with True show ?thesis by blast
    next
      case False
      with X OpSync E have "f2 = f1" "st2 = s1" by (simp_all add: Sync_def)
      with E have "EmptyBuffer W f = Inr (st2, f2)" by simp
      then show ?thesis by (rule flush)
    qed
  next
    case OpFlush
    with fl show ?thesis by simp
  next
    case OpEmptyBuffer
    with X have "EmptyBuffer W f = Inr (st2, f2)" by simp
    then show ?thesis by (rule flush)
  next
    case OpClose
    with X obtain f1 where E: "EmptyBuffer W f = Inr (st2, f1)"
      by (cases "EmptyBuffer W f") (auto simp: Close_def split: option.splits prod.splits)
    note F = EmptyBuffer_Inr[OF E]
    from X OpClose E obtain cs where f2: "f2 = f1\<lparr>base := None, calls := calls f1 @ [CallClose cs]\<rparr>"
      by (auto simp: Close_def split: option.splits prod.splits)
    have "calls f2 = calls f @ CallAppend (buf f) st2 # [CallClose cs]" using F(3) ne f2 by simp
    moreover have "\<not> ok st2 \<Longrightarrow> buf f2 = buf f \<and> offset f2 = offset f"
      using F(4) F(6) ne f2 by simp
    ultimately show ?thesis by blast
  qed
qed

subsection \<open>Calls that return\<close>

text \<open>
  With a positive capacity, a buffer within it and a base that is not NULL, every
  operation returns without a fault, and so does every sequence that does not close the
  file.
\<close>

lemma Append_total:
  assumes pos: "0 < max_buf_size f" and I: "length (buf f) \<le> max_buf_size f"
      and B: "base f \<noteq> None"
  shows "\<exists>st f'. Append W data f = Some (Inr (st, f'))"
proof -
  from Append_returns[OF pos] obtain r where r: "Append W data f = Some r" by blast
  show ?thesis
  proof (cases r)
    case (Inl e)
    with r have "Append W data f = Some (Inl e)" by simp
    from Append_Inl[OF this I] B show ?thesis by simp
  next
    case (Inr p)
    with r show ?thesis by (cases p) auto
  qed
qed

lemma EmptyBuffer_total:
  assumes I: "length (buf f) \<le> max_buf_size f" and B: "base f \<noteq> None"
  shows "\<exists>st f'. EmptyBuffer W f = Inr (st, f')"
proof (cases "EmptyBuffer W f")
  case (Inl e)
  from EmptyBuffer_Inl[OF Inl I] B show ?thesis by simp
next
  case (Inr p)
  then show ?thesis by (cases p) auto
qed

lemma exec_total:
  assumes pos: "0 < max_buf_size f" and I: "length (buf f) \<le> max_buf_size f"
      and B: "base f \<noteq> None" and C: "x \<noteq> OpClose"
  shows "\<exists>st f'. exec W x f = Some (Inr (st, f')) \<and> base f' \<noteq> None"
proof (cases x)
  case (OpAppend d)
  from Append_total[OF pos I B] obtain st f' where A: "Append W d f = Some (Inr (st, f'))"
    by blast
  from Append_Inr[OF A I] B have "base f' \<noteq> None" by simp
  with A OpAppend show ?thesis by simp
next
  case (OpSyncBefore y)
  from EmptyBuffer_total[OF I B] obtain st f' where E: "EmptyBuffer W f = Inr (st, f')" by blast
  from EmptyBuffer_Inr(2)[OF E] B have "base f' \<noteq> None" by simp
  with E B OpSyncBefore show ?thesis by (simp add: SyncBefore_def)
next
  case OpSync
  from EmptyBuffer_total[OF I B] obtain st f' where E: "EmptyBuffer W f = Inr (st, f')" by blast
  from EmptyBuffer_Inr(2)[OF E] B have "base f' \<noteq> None" by simp
  with E OpSync show ?thesis by (auto simp: Sync_def split: prod.splits)
next
  case OpFlush
  with B show ?thesis by (simp add: Flush_def)
next
  case OpEmptyBuffer
  from EmptyBuffer_total[OF I B] obtain st f' where E: "EmptyBuffer W f = Inr (st, f')" by blast
  from EmptyBuffer_Inr(2)[OF E] B have "base f' \<noteq> None" by simp
  with E OpEmptyBuffer show ?thesis by simp
next
  case OpClose
  with C show ?thesis by simp
qed

lemma run_total:
  "0 < max_buf_size f \<Longrightarrow> length (buf f) \<le> max_buf_size f \<Longrightarrow> base f \<noteq> None \<Longrightarrow>
   OpClose \<notin> set xs \<Longrightarrow> \<exists>f'. run W xs f = Some (Inr f')"
proof (induction xs arbitrary: f)
  case Nil
  show ?case by simp
next
  case (Cons x xs)
  from Cons.prems have x: "x \<noteq> OpClose" and xs: "OpClose \<notin> set xs" by auto
  from exec_total[OF Cons.prems(1-3) x] obtain st f1 where
    X: "exec W x f = Some (Inr (st, f1))" and B1: "base f1 \<noteq> None" by blast
  from exec_step[OF X Cons.prems(2)] Cons.prems(1) have
    "0 < max_buf_size f1" "length (buf f1) \<le> max_buf_size f1" by simp_all
  from Cons.IH[OF this B1 xs] obtain f' where "run W xs f1 = Some (Inr f')" by blast
  with X show ?case by simp
qed

lemma exec_returns:
  assumes pos: "0 < max_buf_size f" and I: "length (buf f) \<le> max_buf_size f"
      and B: "base f \<noteq> None"
  shows "\<exists>st f'. exec W x f = Some (Inr (st, f'))"
proof (cases "x = OpClose")
  case False
  from exec_total[OF pos I B False] show ?thesis by blast
next
  case True
  from EmptyBuffer_total[OF I B] obtain st f1 where E: "EmptyBuffer W f = Inr (st, f1)" by blast
  from EmptyBuffer_Inr(2)[OF E] B have "base f1 \<noteq> None" by simp
  with E True show ?thesis by (auto simp: Close_def split: prod.splits)
qed


section \<open>The claims\<close>

subsection \<open>C1: the scenario with capacity 10\<close>

text \<open>
  Claim C1, as the code has it. With capacity 10 and a wrapped writer that accepts the
  ten bytes: \<^verbatim>\<open>Append("abcdefg")\<close> leaves buffer \<open>''abcdefg''\<close> and offset 0 and calls
  nothing. \<^verbatim>\<open>Append("xyz")\<close> brings the total to 10, which the loop test
  \<^verbatim>\<open>buf_.size() + chunk.size() >= max_buf_size_\<close> already counts as full: the ten bytes
  go to the wrapped writer in this call, the buffer is empty and the offset is 10.
  \<^verbatim>\<open>Append("Q")\<close> then only buffers \<open>''Q''\<close>: offset 10, buffer \<open>''Q''\<close>, no further
  call. All three calls return success.
\<close>

theorem scenario_capacity_10:
  assumes "wAppend W ''abcdefgxyz'' b = (OK, b')"
  shows "Append W ''abcdefg'' (UnsafeBufferedWritableFile_new (Some b) 10) =
           Some (Inr (OK, \<lparr>base = Some b, offset = 0, max_buf_size = 10, buf = ''abcdefg'',
                            calls = []\<rparr>)) \<and>
         Append W ''xyz'' \<lparr>base = Some b, offset = 0, max_buf_size = 10, buf = ''abcdefg'',
                            calls = []\<rparr> =
           Some (Inr (OK, \<lparr>base = Some b', offset = 10, max_buf_size = 10, buf = [],
                            calls = [CallAppend ''abcdefgxyz'' OK]\<rparr>)) \<and>
         Append W ''Q'' \<lparr>base = Some b', offset = 10, max_buf_size = 10, buf = [],
                            calls = [CallAppend ''abcdefgxyz'' OK]\<rparr> =
           Some (Inr (OK, \<lparr>base = Some b', offset = 10, max_buf_size = 10, buf = ''Q'',
                            calls = [CallAppend ''abcdefgxyz'' OK]\<rparr>))"
  using assms
  by (simp add: Append_def Append_loop.simps EmptyBuffer_def UnsafeBufferedWritableFile_new_def)

text \<open>The hypothesis of C1 holds for the writer in memory, and the theorem applies to it.\<close>

theorem scenario_capacity_10_witness:
  "wAppend mem_writer ''abcdefgxyz'' [] = (OK, ''abcdefgxyz'') \<and>
   Append mem_writer ''xyz'' \<lparr>base = Some [], offset = 0, max_buf_size = 10, buf = ''abcdefg'',
                            calls = []\<rparr> =
           Some (Inr (OK, \<lparr>base = Some ''abcdefgxyz'', offset = 10, max_buf_size = 10, buf = [],
                            calls = [CallAppend ''abcdefgxyz'' OK]\<rparr>))"
proof -
  have h: "wAppend mem_writer ''abcdefgxyz'' [] = (OK, ''abcdefgxyz'')"
    by (simp add: mem_writer_def)
  from scenario_capacity_10[OF h] h show ?thesis by simp
qed

text \<open>
  Against C1 as stated (after \<^verbatim>\<open>Append("xyz")\<close> the buffer is \<open>''abcdefgxyz''\<close> and the
  offset is 0): on a new decorator of capacity 10 over the writer in memory, the two
  calls end with an empty buffer and offset 10.
\<close>

theorem scenario_second_append_flushes:
  "run mem_writer [OpAppend ''abcdefg'', OpAppend ''xyz'']
     (UnsafeBufferedWritableFile_new (Some []) 10) =
   Some (Inr \<lparr>base = Some ''abcdefgxyz'', offset = 10, max_buf_size = 10, buf = [],
               calls = [CallAppend ''abcdefgxyz'' OK]\<rparr>)"
  by (simp add: Append_def Append_loop.simps EmptyBuffer_def mem_writer_def
      UnsafeBufferedWritableFile_new_def)

subsection \<open>C2: termination\<close>

text \<open>
  Claim C2 says that \<^verbatim>\<open>Append\<close> returns for every capacity, capacity 0 included. With
  capacity greater than 0 it does (\<open>Append_returns\<close>, \<open>Append_total\<close>). With capacity 0
  the loop test is always true, \<^verbatim>\<open>left\<close> is 0 and \<^verbatim>\<open>EmptyBuffer()\<close> of the empty
  buffer succeeds without progress: on a decorator built with capacity 0, \<^verbatim>\<open>Append\<close>
  of any data, over any wrapped writer, never returns.
\<close>

theorem Append_capacity_0_never_returns:
  "Append W data (UnsafeBufferedWritableFile_new b 0) = None"
  by (rule Append_never_returns) (simp_all add: UnsafeBufferedWritableFile_new_def)

subsection \<open>C3: the measurement decorators without a base\<close>

text \<open>
  Claim C3, as the code has it. With \<^verbatim>\<open>base_ == NULL\<close>, whatever the counters hold:
  \<^verbatim>\<open>Flush\<close>, \<^verbatim>\<open>Sync\<close> and \<^verbatim>\<open>Append\<close> of MeasuredWritableFile and \<^verbatim>\<open>Read\<close> and
  \<^verbatim>\<open>Skip\<close> of MeasuredSequentialFile return \<^verbatim>\<open>Status::Disconnected\<close> with an empty
  message and leave the decorator (its counters, and \<^verbatim>\<open>*result\<close> for \<^verbatim>\<open>Read\<close>) as it
  was. \<^verbatim>\<open>Close\<close> of MeasuredWritableFile returns success instead, also without a change.
  The base is absent after \<^verbatim>\<open>Reset(NULL)\<close> and after \<^verbatim>\<open>Close\<close>.
\<close>

theorem Measured_disconnected:
  "MeasuredWritableFile_Flush W (m\<lparr>mw_base := None\<rparr>) = (Disconnected [], m\<lparr>mw_base := None\<rparr>) \<and>
   MeasuredWritableFile_Sync W (m\<lparr>mw_base := None\<rparr>) = (Disconnected [], m\<lparr>mw_base := None\<rparr>) \<and>
   MeasuredWritableFile_Append W data (m\<lparr>mw_base := None\<rparr>) =
     (Disconnected [], m\<lparr>mw_base := None\<rparr>) \<and>
   MeasuredWritableFile_Close W (m\<lparr>mw_base := None\<rparr>) = (OK, m\<lparr>mw_base := None\<rparr>) \<and>
   MeasuredSequentialFile_Read R n result (q\<lparr>ms_base := None\<rparr>) =
     (Disconnected [], result, q\<lparr>ms_base := None\<rparr>) \<and>
   MeasuredSequentialFile_Skip R k (q\<lparr>ms_base := None\<rparr>) =
     (Disconnected [], q\<lparr>ms_base := None\<rparr>) \<and>
   mw_base (MeasuredWritableFile_Reset None m) = None \<and>
   mw_base (snd (MeasuredWritableFile_Close W m)) = None \<and>
   ms_base (MeasuredSequentialFile_Reset None q) = None"
  by (simp add: MeasuredWritableFile_Flush_def MeasuredWritableFile_Sync_def
      MeasuredWritableFile_Append_def MeasuredWritableFile_Close_def
      MeasuredSequentialFile_Read_def MeasuredSequentialFile_Skip_def
      MeasuredWritableFile_Reset_def MeasuredSequentialFile_Reset_def
      split: option.splits prod.splits)

text \<open>
  C3 on a decorator that has counted one \<^verbatim>\<open>Append\<close> of two bytes and was then closed:
  the next \<^verbatim>\<open>Append\<close> is refused and the counters stay at 2 bytes and 1 operation.
\<close>

theorem Measured_disconnected_witness:
  "MeasuredWritableFile_Append mem_writer ''abc''
     (snd (MeasuredWritableFile_Close mem_writer
        (snd (MeasuredWritableFile_Append mem_writer ''xy'' (MeasuredWritableFile_new (Some []))))))
   = (Disconnected [], \<lparr>mw_base = None, num_syncs = 0, num_flushes = 0, mw_bytes = 2, mw_ops = 1\<rparr>)"
  using Measured_disconnected [of mem_writer
      "\<lparr>mw_base = None, num_syncs = 0, num_flushes = 0, mw_bytes = 2, mw_ops = 1\<rparr>" "''abc''"]
  by (simp add: MeasuredWritableFile_Append_def MeasuredWritableFile_Close_def
      MeasuredWritableFile_new_def mem_writer_def)

text \<open>
  Against C3 as stated (every operation returns the disconnected failure): \<^verbatim>\<open>Close\<close> on
  a decorator without a base returns \<^verbatim>\<open>Status::OK()\<close>.
\<close>

theorem Measured_Close_absent_returns_OK:
  "MeasuredWritableFile_Close mem_writer (MeasuredWritableFile_new None) =
     (OK, MeasuredWritableFile_new None)"
  by (simp add: MeasuredWritableFile_Close_def MeasuredWritableFile_new_def)

subsection \<open>C4: EmptyBuffer\<close>

text \<open>
  Claim C4. \<^verbatim>\<open>EmptyBuffer()\<close> on an empty buffer returns success and changes nothing (no
  call on the wrapped writer). On a non-empty buffer (within capacity, wrapped writer
  present) it makes exactly one call, \<^verbatim>\<open>Append\<close> of the whole buffer, and returns its
  status; on success the offset has advanced by the buffer length and the buffer is
  empty; on failure offset and buffer are unchanged.
\<close>

theorem EmptyBuffer_contract:
  "(buf f = [] \<longrightarrow> EmptyBuffer W f = Inr (OK, f)) \<and>
   (buf f \<noteq> [] \<longrightarrow> length (buf f) \<le> max_buf_size f \<longrightarrow> base f = Some b \<longrightarrow>
      wAppend W (buf f) b = (st, b') \<longrightarrow>
      (\<exists>f'. EmptyBuffer W f = Inr (st, f') \<and>
            calls f' = calls f @ [CallAppend (buf f) st] \<and>
            base f' = Some b' \<and> max_buf_size f' = max_buf_size f \<and>
            (ok st \<longrightarrow> offset f' = offset f + of_nat (length (buf f)) \<and> buf f' = []) \<and>
            (\<not> ok st \<longrightarrow> offset f' = offset f \<and> buf f' = buf f)))"
  by (auto simp: EmptyBuffer_def Let_def)


text \<open>Both outcomes of C4 on a buffer of three bytes: a writer that accepts, one that fails.\<close>

theorem EmptyBuffer_contract_witness:
  "EmptyBuffer mem_writer
     \<lparr>base = Some [], offset = 7, max_buf_size = 4, buf = ''abc'', calls = []\<rparr> =
   Inr (OK, \<lparr>base = Some ''abc'', offset = 10, max_buf_size = 4, buf = [],
              calls = [CallAppend ''abc'' OK]\<rparr>) \<and>
   EmptyBuffer budget_writer
     \<lparr>base = Some 0, offset = 7, max_buf_size = 4, buf = ''abc'', calls = []\<rparr> =
   Inr (IOError ''no space'',
        \<lparr>base = Some 0, offset = 7, max_buf_size = 4, buf = ''abc'',
         calls = [CallAppend ''abc'' (IOError ''no space'')]\<rparr>)"
  using EmptyBuffer_contract [of
      "\<lparr>base = Some [], offset = 7, max_buf_size = 4, buf = ''abc'', calls = []\<rparr>"
      mem_writer "[]" OK "''abc''"]
    EmptyBuffer_contract [of
      "\<lparr>base = Some 0, offset = 7, max_buf_size = 4, buf = ''abc'', calls = []\<rparr>"
      budget_writer 0 "IOError ''no space''" 0]
  by (auto simp: mem_writer_def budget_writer_def)

subsection \<open>C5: the state invariant\<close>




subsection \<open>C6: Flush\<close>

text \<open>
  Claim C6. \<^verbatim>\<open>Flush()\<close> returns success with the state as it was, the record of calls
  on the wrapped writer included, and a sequence of calls ends exactly as the same
  sequence without its \<^verbatim>\<open>Flush()\<close> calls.
\<close>

theorem Flush_is_inert:
  "Flush f = Inr (OK, f) \<and> run W (filter (\<lambda>x. x \<noteq> OpFlush) xs) f = run W xs f"
proof
  show "Flush f = Inr (OK, f)" by (simp add: Flush_def)
  show "run W (filter (\<lambda>x. x \<noteq> OpFlush) xs) f = run W xs f"
  proof (induction xs arbitrary: f)
    case Nil
    show ?case by simp
  next
    case (Cons x xs)
    show ?case
    proof (cases "x = OpFlush")
      case True
      with Cons.IH show ?thesis by (simp add: Flush_def)
    next
      case False
      with Cons.IH show ?thesis by (simp split: option.splits sum.splits)
    qed
  qed
qed

text \<open>C6 on a sequence with two \<^verbatim>\<open>Flush()\<close> calls.\<close>

theorem Flush_is_inert_witness:
  "run mem_writer [OpAppend ''ab'', OpFlush, OpAppend ''cd'', OpFlush]
     (UnsafeBufferedWritableFile_new (Some []) 3) =
   Some (Inr \<lparr>base = Some ''abc'', offset = 3, max_buf_size = 3, buf = ''d'',
               calls = [CallAppend ''abc'' OK]\<rparr>) \<and>
   run mem_writer [OpAppend ''ab'', OpAppend ''cd''] (UnsafeBufferedWritableFile_new (Some []) 3) =
   Some (Inr \<lparr>base = Some ''abc'', offset = 3, max_buf_size = 3, buf = ''d'',
               calls = [CallAppend ''abc'' OK]\<rparr>)"
proof -
  have "run mem_writer [OpAppend ''ab'', OpAppend ''cd''] (UnsafeBufferedWritableFile_new (Some []) 3) =
   Some (Inr \<lparr>base = Some ''abc'', offset = 3, max_buf_size = 3, buf = ''d'',
               calls = [CallAppend ''abc'' OK]\<rparr>)"
    by (simp add: Append_def Append_loop.simps EmptyBuffer_def mem_writer_def
        UnsafeBufferedWritableFile_new_def)
  with Flush_is_inert [of "UnsafeBufferedWritableFile_new (Some []) 3" mem_writer
      "[OpAppend ''ab'', OpFlush, OpAppend ''cd'', OpFlush]"]
  show ?thesis by simp
qed

subsection \<open>C7: SyncBefore\<close>

text \<open>
  Claim C7, as the code has it. \<^verbatim>\<open>SyncBefore(x)\<close> returns success at once, with the
  state as it was, when \<^verbatim>\<open>offset_ >= x\<close>, and is \<^verbatim>\<open>EmptyBuffer()\<close> otherwise. When a
  call \<^verbatim>\<open>SyncBefore(x)\<close> has returned success, the same call repeated at once returns
  success and changes nothing: no call reaches the wrapped writer.
\<close>

theorem SyncBefore_contract:
  "(x \<le> offset f \<longrightarrow> SyncBefore W x f = Inr (OK, f)) \<and>
   (\<not> x \<le> offset f \<longrightarrow> SyncBefore W x f = EmptyBuffer W f) \<and>
   (SyncBefore W x f = Inr (st, f') \<longrightarrow> ok st \<longrightarrow> SyncBefore W x f' = Inr (OK, f'))"
proof (intro conjI impI)
  show "x \<le> offset f \<Longrightarrow> SyncBefore W x f = Inr (OK, f)" by (simp add: SyncBefore_def)
  show "\<not> x \<le> offset f \<Longrightarrow> SyncBefore W x f = EmptyBuffer W f" by (simp add: SyncBefore_def)
  assume S: "SyncBefore W x f = Inr (st, f')" and k: "ok st"
  show "SyncBefore W x f' = Inr (OK, f')"
  proof (cases "x \<le> offset f")
    case True
    with S show ?thesis by (simp add: SyncBefore_def)
  next
    case False
    with S have E: "EmptyBuffer W f = Inr (st, f')" by (simp add: SyncBefore_def)
    from EmptyBuffer_Inr(5)[OF E k] have "buf f' = []" .
    then show ?thesis by (simp add: SyncBefore_def EmptyBuffer_def)
  qed
qed

text \<open>
  C7 on a buffer of three bytes and target 5: the first call flushes, the second does
  nothing; and a target the counter already covers leaves a non-empty buffer alone.
\<close>

theorem SyncBefore_contract_witness:
  "SyncBefore mem_writer 5
     \<lparr>base = Some [], offset = 0, max_buf_size = 10, buf = ''abc'', calls = []\<rparr> =
   Inr (OK, \<lparr>base = Some ''abc'', offset = 3, max_buf_size = 10, buf = [],
              calls = [CallAppend ''abc'' OK]\<rparr>) \<and>
   SyncBefore mem_writer 5
     \<lparr>base = Some ''abc'', offset = 3, max_buf_size = 10, buf = [],
      calls = [CallAppend ''abc'' OK]\<rparr> =
   Inr (OK, \<lparr>base = Some ''abc'', offset = 3, max_buf_size = 10, buf = [],
              calls = [CallAppend ''abc'' OK]\<rparr>) \<and>
   SyncBefore mem_writer 2
     \<lparr>base = Some ''abc'', offset = 3, max_buf_size = 10, buf = ''de'',
      calls = [CallAppend ''abc'' OK]\<rparr> =
   Inr (OK, \<lparr>base = Some ''abc'', offset = 3, max_buf_size = 10, buf = ''de'',
              calls = [CallAppend ''abc'' OK]\<rparr>)"
proof -
  have a: "SyncBefore mem_writer 5
     \<lparr>base = Some [], offset = 0, max_buf_size = 10, buf = ''abc'', calls = []\<rparr> =
   Inr (OK, \<lparr>base = Some ''abc'', offset = 3, max_buf_size = 10, buf = [],
              calls = [CallAppend ''abc'' OK]\<rparr>)"
    by (simp add: SyncBefore_def EmptyBuffer_def mem_writer_def)
  have b: "(2 :: 64 word) \<le> offset \<lparr>base = Some ''abc'', offset = 3, max_buf_size = 10, buf = ''de'',
      calls = [CallAppend ''abc'' OK]\<rparr>" by simp
  from SyncBefore_contract [of 5
      "\<lparr>base = Some [], offset = 0, max_buf_size = 10, buf = ''abc'', calls = []\<rparr>" mem_writer
      OK "\<lparr>base = Some ''abc'', offset = 3, max_buf_size = 10, buf = [],
              calls = [CallAppend ''abc'' OK]\<rparr>"] a
    SyncBefore_contract [of 2 "\<lparr>base = Some ''abc'', offset = 3, max_buf_size = 10, buf = ''de'',
      calls = [CallAppend ''abc'' OK]\<rparr>" mem_writer] b
  show ?thesis by simp
qed

text \<open>
  Against C7 as stated (two calls in a row yield success both times, the flush work is
  done at most once): on a new decorator over a writer that fails, after
  \<^verbatim>\<open>Append("abc")\<close> both calls of \<^verbatim>\<open>SyncBefore(5)\<close> return the failure, and each of
  them calls \<^verbatim>\<open>base_->Append\<close> with the buffer.
\<close>

theorem SyncBefore_twice_on_failing_writer:
  "Append budget_writer ''abc'' (UnsafeBufferedWritableFile_new (Some 0) 10) =
   Some (Inr (OK, \<lparr>base = Some 0, offset = 0, max_buf_size = 10, buf = ''abc'', calls = []\<rparr>)) \<and>
   SyncBefore budget_writer 5
     \<lparr>base = Some 0, offset = 0, max_buf_size = 10, buf = ''abc'', calls = []\<rparr> =
   Inr (IOError ''no space'',
        \<lparr>base = Some 0, offset = 0, max_buf_size = 10, buf = ''abc'',
         calls = [CallAppend ''abc'' (IOError ''no space'')]\<rparr>) \<and>
   SyncBefore budget_writer 5
     \<lparr>base = Some 0, offset = 0, max_buf_size = 10, buf = ''abc'',
      calls = [CallAppend ''abc'' (IOError ''no space'')]\<rparr> =
   Inr (IOError ''no space'',
        \<lparr>base = Some 0, offset = 0, max_buf_size = 10, buf = ''abc'',
         calls = [CallAppend ''abc'' (IOError ''no space''),
                  CallAppend ''abc'' (IOError ''no space'')]\<rparr>)"
  by (simp add: SyncBefore_def EmptyBuffer_def budget_writer_def Append_def Append_loop.simps
      UnsafeBufferedWritableFile_new_def)

subsection \<open>C8: WholeFileBufferedRandomAccessFile::Read\<close>

text \<open>
  Claim C8. \<^verbatim>\<open>Read(offset, n)\<close> always returns success. At or beyond the buffered
  length the result is the empty slice. Below it the result is the slice at
  \<^verbatim>\<open>buf_ + offset\<close> of length \<open>min n (buffered length - offset)\<close>, which ends within the
  buffered length, hence within the capacity when the buffered length is. The bytes
  returned are the \<open>n\<close> bytes at \<open>offset\<close> of the first buffered-length bytes of the
  array, as far as there are any. With buffered length 0 every result is empty.
\<close>

theorem WholeFile_Read_contract:
  "(wf_buf_size f \<le> off \<longrightarrow>
      WholeFileBufferedRandomAccessFile_Read f off n = (OK, \<lparr>sl_data = EmptyString, sl_size = 0\<rparr>)) \<and>
   (off < wf_buf_size f \<longrightarrow>
      WholeFileBufferedRandomAccessFile_Read f off n =
        (OK, \<lparr>sl_data = InBuf off, sl_size = min n (wf_buf_size f - off)\<rparr>) \<and>
      unat off + unat (min n (wf_buf_size f - off)) \<le> unat (wf_buf_size f) \<and>
      (wf_buf_size f \<le> wf_max_buf_size f \<longrightarrow>
         unat off + unat (min n (wf_buf_size f - off)) \<le> unat (wf_max_buf_size f))) \<and>
   fst (WholeFileBufferedRandomAccessFile_Read f off n) = OK \<and>
   Slice_bytes f (snd (WholeFileBufferedRandomAccessFile_Read f off n)) =
     take (unat n) (drop (unat off) (take (unat (wf_buf_size f)) (wf_buf f))) \<and>
   (unat (wf_buf_size f) \<le> length (wf_buf f) \<longrightarrow>
      length (Slice_bytes f (snd (WholeFileBufferedRandomAccessFile_Read f off n))) =
        min (unat n) (unat (wf_buf_size f) - unat off)) \<and>
   (wf_buf_size f = 0 \<longrightarrow>
      WholeFileBufferedRandomAccessFile_Read f off n = (OK, \<lparr>sl_data = EmptyString, sl_size = 0\<rparr>) \<and>
      Slice_bytes f (snd (WholeFileBufferedRandomAccessFile_Read f off n)) = [])"
proof -
  have A: "wf_buf_size f \<le> off \<Longrightarrow>
      WholeFileBufferedRandomAccessFile_Read f off n = (OK, \<lparr>sl_data = EmptyString, sl_size = 0\<rparr>)"
    by (simp add: WholeFileBufferedRandomAccessFile_Read_def not_less)
  have B: "WholeFileBufferedRandomAccessFile_Read f off n =
        (OK, \<lparr>sl_data = InBuf off, sl_size = min n (wf_buf_size f - off)\<rparr>)" if "off < wf_buf_size f"
    using that by (auto simp: WholeFileBufferedRandomAccessFile_Read_def Let_def min_def)
  have C: "unat off + unat (min n (wf_buf_size f - off)) \<le> unat (wf_buf_size f)" if lt: "off < wf_buf_size f"
  proof -
    from lt have le: "off \<le> wf_buf_size f" by simp
    have "unat (min n (wf_buf_size f - off)) \<le> unat (wf_buf_size f - off)"
      by (simp add: word_le_nat_alt[symmetric])
    also have "\<dots> = unat (wf_buf_size f) - unat off" using le by (simp add: unat_sub)
    finally show ?thesis using le by (simp add: word_le_nat_alt)
  qed
  have D: "fst (WholeFileBufferedRandomAccessFile_Read f off n) = OK"
    by (simp add: WholeFileBufferedRandomAccessFile_Read_def Let_def)
  have E: "Slice_bytes f (snd (WholeFileBufferedRandomAccessFile_Read f off n)) =
        take (unat n) (drop (unat off) (take (unat (wf_buf_size f)) (wf_buf f)))"
  proof (cases "off < wf_buf_size f")
    case True
    then have le: "off \<le> wf_buf_size f" by simp
    have u: "unat (wf_buf_size f - off) = unat (wf_buf_size f) - unat off"
      using le by (simp add: unat_sub)
    have m: "unat (min n (wf_buf_size f - off)) = min (unat n) (unat (wf_buf_size f) - unat off)"
      by (simp add: min_def word_le_nat_alt u)
    show ?thesis
      by (simp add: B[OF True] Slice_bytes_def m drop_take take_take min.commute)
  next
    case False
    then have "wf_buf_size f \<le> off" by simp
    then have "unat (wf_buf_size f) \<le> unat off" by (simp add: word_le_nat_alt)
    with A[OF \<open>wf_buf_size f \<le> off\<close>] show ?thesis
      by (simp add: Slice_bytes_def)
  qed
  have F: "length (Slice_bytes f (snd (WholeFileBufferedRandomAccessFile_Read f off n))) =
        min (unat n) (unat (wf_buf_size f) - unat off)" if "unat (wf_buf_size f) \<le> length (wf_buf f)"
    using that by (simp add: E min.commute min_absorb2)
  have G: "wf_buf_size f = 0 \<Longrightarrow>
      WholeFileBufferedRandomAccessFile_Read f off n = (OK, \<lparr>sl_data = EmptyString, sl_size = 0\<rparr>)"
    by (simp add: WholeFileBufferedRandomAccessFile_Read_def)
  have H: "wf_buf_size f = 0 \<Longrightarrow> Slice_bytes f (snd (WholeFileBufferedRandomAccessFile_Read f off n)) = []"
    by (simp add: G Slice_bytes_def)
  have C': "unat off + unat (min n (wf_buf_size f - off)) \<le> unat (wf_max_buf_size f)"
    if "off < wf_buf_size f" "wf_buf_size f \<le> wf_max_buf_size f"
    using C[OF that(1)] that(2) by (simp add: word_le_nat_alt)
  from A B C C' D E F G H show ?thesis by blast
qed

text \<open>
  C8 on an array of capacity 8 holding 6 loaded bytes: a read of 100 bytes at 4 returns
  the two bytes \<open>''ef''\<close>, a read at 6 returns nothing, and so does a read before any load.
\<close>

theorem WholeFile_Read_contract_witness:
  "WholeFileBufferedRandomAccessFile_Read
     \<lparr>wf_base = Some (), wf_max_buf_size = 8, wf_io_size = 4, wf_buf_size = 6, wf_buf = ''abcdefzz''\<rparr>
     4 100 = (OK, \<lparr>sl_data = InBuf 4, sl_size = 2\<rparr>) \<and>
   Slice_bytes
     \<lparr>wf_base = Some (), wf_max_buf_size = 8, wf_io_size = 4, wf_buf_size = 6, wf_buf = ''abcdefzz''\<rparr>
     \<lparr>sl_data = InBuf 4, sl_size = 2\<rparr> = ''ef'' \<and>
   WholeFileBufferedRandomAccessFile_Read
     \<lparr>wf_base = Some (), wf_max_buf_size = 8, wf_io_size = 4, wf_buf_size = 6, wf_buf = ''abcdefzz''\<rparr>
     6 1 = (OK, \<lparr>sl_data = EmptyString, sl_size = 0\<rparr>) \<and>
   WholeFileBufferedRandomAccessFile_Read
     (WholeFileBufferedRandomAccessFile_new (Some ()) 8 4 ''????????'') 0 3 =
     (OK, \<lparr>sl_data = EmptyString, sl_size = 0\<rparr>)"
  using WholeFile_Read_contract [of
      "\<lparr>wf_base = Some (), wf_max_buf_size = 8, wf_io_size = 4, wf_buf_size = 6, wf_buf = ''abcdefzz''\<rparr>"
      4 100]
    WholeFile_Read_contract [of
      "\<lparr>wf_base = Some (), wf_max_buf_size = 8, wf_io_size = 4, wf_buf_size = 6, wf_buf = ''abcdefzz''\<rparr>"
      6 1]
    WholeFile_Read_contract [of "WholeFileBufferedRandomAccessFile_new (Some ()) 8 4 ''????????''" 0 3]
  by (simp add: WholeFileBufferedRandomAccessFile_new_def Slice_bytes_def)

subsection \<open>C9: the counters of the measurement decorators\<close>

text \<open>
  Claim C9. With a base present, each call returns the status of the base call. A
  successful \<^verbatim>\<open>Append(data)\<close> adds the length of \<open>data\<close> to the byte counter and one to
  the operation counter, a successful \<^verbatim>\<open>Flush\<close> adds one to the flush counter, a
  successful \<^verbatim>\<open>Sync\<close> one to the sync counter, and each leaves the other counters
  alone; a successful \<^verbatim>\<open>Read\<close> adds the length of the data returned to the byte
  counter and one to the operation counter. A failed base call changes no counter, and
  \<^verbatim>\<open>Skip\<close> never does.
\<close>

theorem Measured_counters:
  "(mw_base m = Some b \<longrightarrow>
      (wAppend W data b = (st, b') \<longrightarrow>
         MeasuredWritableFile_counters (snd (MeasuredWritableFile_Append W data m)) =
           (if ok st
            then (num_flushes m, num_syncs m, mw_bytes m + of_nat (length data), mw_ops m + 1)
            else MeasuredWritableFile_counters m) \<and>
         fst (MeasuredWritableFile_Append W data m) = st) \<and>
      (wFlush W b = (st, b') \<longrightarrow>
         MeasuredWritableFile_counters (snd (MeasuredWritableFile_Flush W m)) =
           (if ok st then (num_flushes m + 1, num_syncs m, mw_bytes m, mw_ops m)
            else MeasuredWritableFile_counters m) \<and>
         fst (MeasuredWritableFile_Flush W m) = st) \<and>
      (wSync W b = (st, b') \<longrightarrow>
         MeasuredWritableFile_counters (snd (MeasuredWritableFile_Sync W m)) =
           (if ok st then (num_flushes m, num_syncs m + 1, mw_bytes m, mw_ops m)
            else MeasuredWritableFile_counters m) \<and>
         fst (MeasuredWritableFile_Sync W m) = st)) \<and>
   (ms_base q = Some r \<longrightarrow> sRead R n result r = ((st, result'), r') \<longrightarrow>
      (case MeasuredSequentialFile_Read R n result q of
         (s, res, q') \<Rightarrow> s = st \<and> res = result' \<and>
           ms_bytes q' = (if ok st then ms_bytes q + of_nat (length result') else ms_bytes q) \<and>
           ms_ops q' = (if ok st then ms_ops q + 1 else ms_ops q))) \<and>
   ms_bytes (snd (MeasuredSequentialFile_Skip R k q)) = ms_bytes q \<and>
   ms_ops (snd (MeasuredSequentialFile_Skip R k q)) = ms_ops q"
  by (auto simp: MeasuredWritableFile_Append_def MeasuredWritableFile_Flush_def
      MeasuredWritableFile_Sync_def MeasuredWritableFile_counters_def
      MeasuredSequentialFile_Read_def MeasuredSequentialFile_Skip_def
      split: option.splits prod.splits)

text \<open>
  C9 on calls that succeed and on calls that fail; the read asks for 10 bytes and is
  counted with the 3 it gets.
\<close>

theorem Measured_counters_witness:
  "MeasuredWritableFile_counters
     (snd (MeasuredWritableFile_Append mem_writer ''hello'' (MeasuredWritableFile_new (Some [])))) =
     (0, 0, 5, 1) \<and>
   MeasuredWritableFile_counters
     (snd (MeasuredWritableFile_Append budget_writer ''hello'' (MeasuredWritableFile_new (Some 0)))) =
     (0, 0, 0, 0) \<and>
   MeasuredWritableFile_counters
     (snd (MeasuredWritableFile_Flush mem_writer (MeasuredWritableFile_new (Some [])))) =
     (1, 0, 0, 0) \<and>
   MeasuredWritableFile_counters
     (snd (MeasuredWritableFile_Sync mem_writer (MeasuredWritableFile_new (Some [])))) =
     (0, 1, 0, 0) \<and>
   MeasuredSequentialFile_Read mem_reader 10 [] (MeasuredSequentialFile_new (Some ''abc'')) =
     (OK, ''abc'', \<lparr>ms_base = Some [], ms_bytes = 3, ms_ops = 1\<rparr>) \<and>
   MeasuredSequentialFile_Read broken_reader 10 [] (MeasuredSequentialFile_new (Some ())) =
     (IOError ''bad sector'', [], \<lparr>ms_base = Some (), ms_bytes = 0, ms_ops = 0\<rparr>)"
  using
    Measured_counters [of "MeasuredWritableFile_new (Some [])" "[]" mem_writer "''hello''" OK "''hello''"]
    Measured_counters [of "MeasuredWritableFile_new (Some 0)" 0 budget_writer "''hello''"
       "IOError ''no space''" 0]
    Measured_counters [of "MeasuredWritableFile_new (Some [])" "[]" mem_writer _ OK "[]"]
    Measured_counters [where q = "MeasuredSequentialFile_new (Some ''abc'')" and r = "''abc''"
       and R = mem_reader and n = 10 and result = "[]" and st = OK and result' = "''abc''" and r' = "[]"]
    Measured_counters [where q = "MeasuredSequentialFile_new (Some ())" and r = "()"
       and R = broken_reader and n = 10 and result = "[]" and st = "IOError ''bad sector''"
       and result' = "[]" and r' = "()"]
  by (simp add: MeasuredWritableFile_new_def MeasuredSequentialFile_new_def mem_writer_def
      budget_writer_def mem_reader_def broken_reader_def MeasuredWritableFile_counters_def
      MeasuredWritableFile_Append_def MeasuredWritableFile_Flush_def MeasuredWritableFile_Sync_def
      MeasuredSequentialFile_Read_def)

subsection \<open>C10: a failed flush inside Append\<close>

text \<open>
  Claim C10, as the code has it. Take a decorator with positive capacity, its buffer
  within it and a base that is not NULL. \<^verbatim>\<open>Append(data)\<close> returns; the calls it made on
  the wrapped writer are \<open>new\<close>. The offset has advanced by the bytes those calls handed
  over; these bytes, then the buffer, then a dropped \<open>rest\<close> make up the old buffer
  followed by \<open>data\<close>. When every call succeeded, \<^verbatim>\<open>Append\<close> returns success. When a
  call failed, so that \<^verbatim>\<open>EmptyBuffer()\<close> failed inside \<^verbatim>\<open>Append\<close>: it is the last call
  and the only one to fail, \<^verbatim>\<open>Append\<close> returns its failure, and the buffer is left
  exactly full with the bytes of that call. When no flush of the call succeeded before,
  the offset is unchanged and the buffer is the old buffer topped off with a prefix of
  \<open>data\<close>, the remaining suffix being dropped. Every operation that flushes then
  returns, after first passing the retained buffer to the wrapped writer: when the
  operation returns success the writer has accepted these bytes, and when the writer
  fails again the operation returns that failure with buffer and offset unchanged.
\<close>

theorem Append_failure:
  assumes pos: "0 < max_buf_size f" and I: "length (buf f) \<le> max_buf_size f"
      and B: "base f \<noteq> None"
  shows "\<exists>st f' new rest.
           Append W data f = Some (Inr (st, f')) \<and>
           calls f' = calls f @ new \<and> max_buf_size f' = max_buf_size f \<and>
           offset f' = offset f + of_nat (length (handed new)) \<and>
           buf f @ data = handed new @ buf f' @ rest \<and>
           (list_all call_ok new \<longrightarrow> ok st) \<and>
           (\<not> list_all call_ok new \<longrightarrow>
              \<not> ok st \<and> last new = CallAppend (buf f') st \<and> list_all call_ok (butlast new) \<and>
              length (buf f') = max_buf_size f \<and>
              (handed new = [] \<longrightarrow>
                 offset f' = offset f \<and>
                 buf f' = buf f @ take (max_buf_size f - length (buf f)) data \<and>
                 rest = drop (max_buf_size f - length (buf f)) data) \<and>
              (\<forall>x. flushing x f' \<longrightarrow>
                 (\<exists>st2 f2 s more.
                    exec W x f' = Some (Inr (st2, f2)) \<and>
                    calls f2 = calls f' @ CallAppend (buf f') s # more \<and>
                    (ok st2 \<longrightarrow>
                       ok s \<and> handed (calls f2) = handed (calls f') @ buf f' @ handed more) \<and>
                    (\<not> ok s \<longrightarrow> st2 = s \<and> buf f2 = buf f' \<and> offset f2 = offset f'))))"
proof -
  from Append_total[OF pos I B] obtain st f' where A: "Append W data f = Some (Inr (st, f'))"
    by blast
  from Append_Inr[OF A I] obtain new rest where
        m: "max_buf_size f' = max_buf_size f" and b: "(base f' = None) = (base f = None)"
    and c: "calls f' = calls f @ new"
    and o: "offset f' = offset f + of_nat (length (handed new))"
    and e: "buf f @ data = handed new @ buf f' @ rest"
    and x: "(if ok st then length (buf f') < max_buf_size f \<and> rest = [] \<and> list_all call_ok new
             else length (buf f') = max_buf_size f \<and> new \<noteq> [] \<and>
                  last new = CallAppend (buf f') st \<and> list_all call_ok (butlast new))"
    by - (elim conjE exE, rule that)
  have good: "ok st" if "list_all call_ok new"
  proof (rule ccontr)
    assume n: "\<not> ok st"
    with x have ne: "new \<noteq> []" and la: "last new = CallAppend (buf f') st" by simp_all
    from ne have "last new \<in> set new" by (rule last_in_set)
    moreover from la n have "\<not> call_ok (last new)" by simp
    ultimately show False using that by (auto simp: list_all_iff)
  qed
  have bad: "\<not> ok st \<and> last new = CallAppend (buf f') st \<and> list_all call_ok (butlast new) \<and>
             length (buf f') = max_buf_size f" if "\<not> list_all call_ok new"
    using that x by (auto split: if_splits)
  have first: "offset f' = offset f \<and>
               buf f' = buf f @ take (max_buf_size f - length (buf f)) data \<and>
               rest = drop (max_buf_size f - length (buf f)) data"
    if l: "length (buf f') = max_buf_size f" and h: "handed new = []"
  proof -
    from e h have e': "buf f @ data = buf f' @ rest" by simp
    then have "take (max_buf_size f) (buf f @ data) = buf f'" using l by simp
    then have t: "buf f' = buf f @ take (max_buf_size f - length (buf f)) data" using I by simp
    from e' have "drop (max_buf_size f) (buf f @ data) = rest" using l by simp
    then have "rest = drop (max_buf_size f - length (buf f)) data" using I by simp
    with t o h show ?thesis by simp
  qed
  have nxt: "\<exists>st2 f2 s more.
               exec W y f' = Some (Inr (st2, f2)) \<and>
               calls f2 = calls f' @ CallAppend (buf f') s # more \<and>
               (ok st2 \<longrightarrow> ok s \<and> handed (calls f2) = handed (calls f') @ buf f' @ handed more) \<and>
               (\<not> ok s \<longrightarrow> st2 = s \<and> buf f2 = buf f' \<and> offset f2 = offset f')"
    if l: "length (buf f') = max_buf_size f" and fl: "flushing y f'" for y
  proof -
    have pos': "0 < max_buf_size f'" and I': "length (buf f') \<le> max_buf_size f'"
      and B': "base f' \<noteq> None" and full: "length (buf f') = max_buf_size f'"
      and ne: "buf f' \<noteq> []"
      using pos l m b B by auto
    from exec_returns[OF pos' I' B'] obtain st2 f2 where X: "exec W y f' = Some (Inr (st2, f2))"
      by blast
    from exec_on_full_buffer[OF X fl full ne] obtain s more where
      k: "calls f2 = calls f' @ CallAppend (buf f') s # more" "ok st2 \<longrightarrow> ok s"
         "\<not> ok s \<longrightarrow> st2 = s \<and> buf f2 = buf f' \<and> offset f2 = offset f'"
      by blast
    have "handed (calls f2) = handed (calls f') @ buf f' @ handed more" if "ok st2"
      using that k(1) k(2) by (simp add: handed_append)
    with X k show ?thesis by blast
  qed
  have tail: "\<not> list_all call_ok new \<longrightarrow>
              \<not> ok st \<and> last new = CallAppend (buf f') st \<and> list_all call_ok (butlast new) \<and>
              length (buf f') = max_buf_size f \<and>
              (handed new = [] \<longrightarrow>
                 offset f' = offset f \<and>
                 buf f' = buf f @ take (max_buf_size f - length (buf f)) data \<and>
                 rest = drop (max_buf_size f - length (buf f)) data) \<and>
              (\<forall>x. flushing x f' \<longrightarrow>
                 (\<exists>st2 f2 s more.
                    exec W x f' = Some (Inr (st2, f2)) \<and>
                    calls f2 = calls f' @ CallAppend (buf f') s # more \<and>
                    (ok st2 \<longrightarrow>
                       ok s \<and> handed (calls f2) = handed (calls f') @ buf f' @ handed more) \<and>
                    (\<not> ok s \<longrightarrow> st2 = s \<and> buf f2 = buf f' \<and> offset f2 = offset f')))"
  proof (intro impI)
    assume "\<not> list_all call_ok new"
    from bad[OF this] have q: "\<not> ok st" "last new = CallAppend (buf f') st"
      "list_all call_ok (butlast new)" "length (buf f') = max_buf_size f" by simp_all
    from q first[OF q(4)] nxt[OF q(4)] show
      "\<not> ok st \<and> last new = CallAppend (buf f') st \<and> list_all call_ok (butlast new) \<and>
       length (buf f') = max_buf_size f \<and>
       (handed new = [] \<longrightarrow>
          offset f' = offset f \<and>
          buf f' = buf f @ take (max_buf_size f - length (buf f)) data \<and>
          rest = drop (max_buf_size f - length (buf f)) data) \<and>
       (\<forall>x. flushing x f' \<longrightarrow>
          (\<exists>st2 f2 s more.
             exec W x f' = Some (Inr (st2, f2)) \<and>
             calls f2 = calls f' @ CallAppend (buf f') s # more \<and>
             (ok st2 \<longrightarrow>
                ok s \<and> handed (calls f2) = handed (calls f') @ buf f' @ handed more) \<and>
             (\<not> ok s \<longrightarrow> st2 = s \<and> buf f2 = buf f' \<and> offset f2 = offset f')))"
      by blast
  qed
  show ?thesis
    apply (rule exI[of _ st], rule exI[of _ f'], rule exI[of _ new], rule exI[of _ rest])
    apply (intro conjI)
          apply (rule A)
         apply (rule c)
        apply (rule m)
       apply (rule o)
      apply (rule e)
     using good apply blast
    apply (rule tail)
    done
qed

text \<open>
  C10 where the first flush fails: the buffer \<open>''ab''\<close> is topped off to \<open>''abcd''\<close>, the
  call fails with the offset still 0 and \<open>''g''\<close> dropped, and once the writer accepts
  again \<^verbatim>\<open>EmptyBuffer()\<close> hands over \<open>''abcd''\<close>.
\<close>

theorem Append_failure_witness:
  "Append budget_writer ''cdefg''
     \<lparr>base = Some 0, offset = 0, max_buf_size = 4, buf = ''ab'', calls = []\<rparr> =
   Some (Inr (IOError ''no space'',
     \<lparr>base = Some 0, offset = 0, max_buf_size = 4, buf = ''abcd'',
      calls = [CallAppend ''abcd'' (IOError ''no space'')]\<rparr>)) \<and>
   exec budget_writer OpEmptyBuffer
     \<lparr>base = Some 1, offset = 0, max_buf_size = 4, buf = ''abcd'',
      calls = [CallAppend ''abcd'' (IOError ''no space'')]\<rparr> =
   Some (Inr (OK,
     \<lparr>base = Some 0, offset = 4, max_buf_size = 4, buf = [],
      calls = [CallAppend ''abcd'' (IOError ''no space''), CallAppend ''abcd'' OK]\<rparr>))"
proof -
  have a: "Append budget_writer ''cdefg''
     \<lparr>base = Some 0, offset = 0, max_buf_size = 4, buf = ''ab'', calls = []\<rparr> =
   Some (Inr (IOError ''no space'',
     \<lparr>base = Some 0, offset = 0, max_buf_size = 4, buf = ''abcd'',
      calls = [CallAppend ''abcd'' (IOError ''no space'')]\<rparr>))"
    by (simp add: Append_def Append_loop.simps EmptyBuffer_def budget_writer_def)
  have p: "0 < max_buf_size
             \<lparr>base = Some (0::nat), offset = 0, max_buf_size = 4, buf = ''ab'', calls = []\<rparr>"
    and i: "length (buf \<lparr>base = Some (0::nat), offset = 0, max_buf_size = 4, buf = ''ab'',
                         calls = []\<rparr>)
           \<le> max_buf_size
               \<lparr>base = Some (0::nat), offset = 0, max_buf_size = 4, buf = ''ab'', calls = []\<rparr>"
    and n: "base \<lparr>base = Some (0::nat), offset = 0, max_buf_size = 4, buf = ''ab'', calls = []\<rparr>
            \<noteq> None"
    by simp_all
  have b: "exec budget_writer OpEmptyBuffer
     \<lparr>base = Some 1, offset = 0, max_buf_size = 4, buf = ''abcd'',
      calls = [CallAppend ''abcd'' (IOError ''no space'')]\<rparr> =
   Some (Inr (OK,
     \<lparr>base = Some 0, offset = 4, max_buf_size = 4, buf = [],
      calls = [CallAppend ''abcd'' (IOError ''no space''), CallAppend ''abcd'' OK]\<rparr>))"
    by (simp add: EmptyBuffer_def budget_writer_def)
  from Append_failure[OF p i n, of budget_writer "''cdefg''"] a b show ?thesis by simp
qed

text \<open>
  Against C10 as stated (offset unchanged, buffer = what was buffered before plus a prefix
  of \<open>data\<close>): when the first flush of the call succeeds and the second fails, the offset
  has moved from 0 to 4 and the buffer holds \<open>''efgh''\<close>, bytes from the middle of \<open>data\<close>.
\<close>

theorem Append_failure_after_partial_flush:
  "Append budget_writer ''abcdefghij'' (UnsafeBufferedWritableFile_new (Some 1) 4) =
   Some (Inr (IOError ''no space'',
     \<lparr>base = Some 0, offset = 4, max_buf_size = 4, buf = ''efgh'',
      calls = [CallAppend ''abcd'' OK, CallAppend ''efgh'' (IOError ''no space'')]\<rparr>))"
  by (simp add: Append_def Append_loop.simps EmptyBuffer_def budget_writer_def
      UnsafeBufferedWritableFile_new_def)

end
